theory Spec2Isabelle
  imports Main
begin

section \<open>The elevator dispatch core of main.py\<close>

text \<open>
  A shallow embedding of the classes \<^verbatim>\<open>Button\<close>, \<^verbatim>\<open>ElevatorDoor\<close> and
  \<^verbatim>\<open>Elevator\<close> of \<^verbatim>\<open>src/main.py\<close>. Objects are records, every method takes
  the object and returns the updated object next to its result, and a Python
  exception is a value of \<open>py_error\<close>.

  Two things of the source are left out. The float fields
  \<^verbatim>\<open>movement_delay_per_floor\<close> and \<^verbatim>\<open>door_open_time\<close> of the configuration
  only feed \<^verbatim>\<open>time.sleep\<close>, which changes no field of any object: a sleep is
  modelled as no step at all (the repository builds every configuration with
  the defaults 2.0 and 3.0). The list \<^verbatim>\<open>_floors\<close> of \<^verbatim>\<open>Floor\<close> objects is
  filled by the constructor and never read again.
\<close>

subsection \<open>Enumerations, configuration, errors\<close>

datatype Direction = UP | DOWN | IDLE

datatype DoorState = OPEN | CLOSED | OPENING | CLOSING

record ElevatorConfig =
  max_floors :: int
  min_floors :: int

text \<open>The dataclass defaults: floors 1 to 15.\<close>

definition default_config :: ElevatorConfig where
  "default_config = \<lparr>max_floors = 15, min_floors = 1\<rparr>"

text \<open>
  The exceptions the modelled methods can raise: a missing dictionary key, the
  interpreter's recursion limit, and \<^verbatim>\<open>random.randint\<close> on an empty range.
\<close>

datatype py_error = KeyError | RecursionError | ValueError

subsection \<open>Button\<close>

record Button =
  button_floor :: int
  is_pressed :: bool
  is_stuck :: bool

definition new_Button :: "int \<Rightarrow> Button" where
  "new_Button f = \<lparr>button_floor = f, is_pressed = False, is_stuck = False\<rparr>"

text \<open>\<^verbatim>\<open>Button.press\<close>: the result, and the button afterwards.\<close>

definition press :: "Button \<Rightarrow> bool \<times> Button" where
  "press b = (if is_stuck b then (False, b) else (True, b\<lparr>is_pressed := True\<rparr>))"

definition release :: "Button \<Rightarrow> Button" where
  "release b = b\<lparr>is_pressed := False\<rparr>"

definition set_stuck :: "Button \<Rightarrow> bool \<Rightarrow> Button" where
  "set_stuck b stuck = b\<lparr>is_stuck := stuck\<rparr>"

subsection \<open>ElevatorDoor\<close>

record ElevatorDoor =
  state :: DoorState

definition new_ElevatorDoor :: ElevatorDoor where
  "new_ElevatorDoor = \<lparr>state = CLOSED\<rparr>"

definition is_open :: "ElevatorDoor \<Rightarrow> bool" where
  "is_open d = (state d = OPEN)"

definition is_closed :: "ElevatorDoor \<Rightarrow> bool" where
  "is_closed d = (state d = CLOSED)"

text \<open>\<^verbatim>\<open>ElevatorDoor.open\<close> and \<^verbatim>\<open>ElevatorDoor.close\<close>; each assignment of the
  source is one update, the sleep between them is no step.\<close>

definition door_open :: "ElevatorDoor \<Rightarrow> ElevatorDoor" where
  "door_open d =
     (if state d = OPEN then d
      else (let d1 = d\<lparr>state := OPENING\<rparr> in d1\<lparr>state := OPEN\<rparr>))"

definition door_close :: "ElevatorDoor \<Rightarrow> ElevatorDoor" where
  "door_close d =
     (if state d = CLOSED then d
      else (let d1 = d\<lparr>state := CLOSING\<rparr> in d1\<lparr>state := CLOSED\<rparr>))"

text \<open>\<^verbatim>\<open>ElevatorDoor.force_open\<close>: the returned flag, and the door afterwards.\<close>

definition force_open :: "ElevatorDoor \<Rightarrow> bool \<times> ElevatorDoor" where
  "force_open d =
     (if state d = CLOSING then
        (let d1 = d\<lparr>state := OPENING\<rparr>;
             d2 = d1\<lparr>state := OPEN\<rparr>
         in (True, d2))
      else (False, d))"

subsection \<open>Elevator\<close>

text \<open>
  \<^verbatim>\<open>_requested_floors\<close> is a Python set of integers, always finite; the model
  is an \<open>int set\<close> and the theorems that rely on its minimum or maximum
  assume it finite. \<^verbatim>\<open>_floor_buttons\<close> is a dictionary, a lookup of a missing
  key raises \<^verbatim>\<open>KeyError\<close>.
\<close>

record Elevator =
  config :: ElevatorConfig
  elevator_id :: string
  current_floor :: int
  direction :: Direction
  door :: ElevatorDoor
  requested_floors :: "int set"
  floor_buttons :: "int \<rightharpoonup> Button"

text \<open>\<^verbatim>\<open>Elevator.__init__\<close>: the loop over \<^verbatim>\<open>range(min_floors, max_floors + 1)\<close>
  stores one fresh button per floor.\<close>

definition new_Elevator :: "ElevatorConfig \<Rightarrow> string \<Rightarrow> Elevator" where
  "new_Elevator c eid =
     \<lparr>config = c,
      elevator_id = eid,
      current_floor = min_floors c,
      direction = IDLE,
      door = new_ElevatorDoor,
      requested_floors = {},
      floor_buttons =
        foldl (\<lambda>m f. m(f \<mapsto> new_Button f)) Map.empty [min_floors c..max_floors c]\<rparr>"

text \<open>
  \<^verbatim>\<open>press_floor_button\<close>. The method returns in three ways: False for a floor
  out of bounds, \<^verbatim>\<open>KeyError\<close> when the dictionary has no button for the floor,
  and the outcome of \<^verbatim>\<open>Button.press\<close> otherwise.
\<close>

definition press_floor_button :: "Elevator \<Rightarrow> int \<Rightarrow> (py_error + bool) \<times> Elevator" where
  "press_floor_button e f =
     (if \<not> (min_floors (config e) \<le> f \<and> f \<le> max_floors (config e)) then (Inr False, e)
      else
        (case floor_buttons e f of
           None \<Rightarrow> (Inl KeyError, e)
         | Some button \<Rightarrow>
             (case press button of
                (pressed, button') \<Rightarrow>
                  (let e1 = e\<lparr>floor_buttons := (floor_buttons e)(f \<mapsto> button')\<rparr> in
                   if pressed then
                     (let e2 = e1\<lparr>requested_floors := insert f (requested_floors e1)\<rparr>;
                          e3 = (if direction e2 = IDLE
                                then e2\<lparr>direction := (if f > current_floor e2 then UP else DOWN)\<rparr>
                                else e2)
                      in (Inr True, e3))
                   else (Inr False, e1)))))"

text \<open>
  \<^verbatim>\<open>random.randint(a, b)\<close>: some integer of the closed range, each one possible;
  the generator's entropy is the argument \<open>rnd\<close>. On an empty range the library
  raises \<^verbatim>\<open>ValueError\<close>.
\<close>

definition randint :: "int \<Rightarrow> int \<Rightarrow> nat \<Rightarrow> py_error + int" where
  "randint a b rnd =
     (if b < a then Inl ValueError else Inr (a + int rnd mod (b - a + 1)))"

text \<open>\<^verbatim>\<open>add_random_stop\<close>, with the entropy of its one draw.\<close>

definition add_random_stop :: "Elevator \<Rightarrow> nat \<Rightarrow> (py_error + unit) \<times> Elevator" where
  "add_random_stop e rnd =
     (if int (card (requested_floors e)) < max_floors (config e) - min_floors (config e) then
        (case randint (min_floors (config e)) (max_floors (config e)) rnd of
           Inl err \<Rightarrow> (Inl err, e)
         | Inr random_floor \<Rightarrow>
             (if random_floor \<noteq> current_floor e
              then (Inr (), e\<lparr>requested_floors := insert random_floor (requested_floors e)\<rparr>)
              else (Inr (), e)))
      else (Inr (), e))"

text \<open>\<^verbatim>\<open>move_to_floor\<close>: the \<^verbatim>\<open>for\<close> loop runs \<open>abs (target - current)\<close> times
  and moves one floor in the direction set before it.\<close>

fun move_loop :: "nat \<Rightarrow> Elevator \<Rightarrow> Elevator" where
  "move_loop 0 e = e"
| "move_loop (Suc k) e =
     move_loop k
       (if direction e = UP then e\<lparr>current_floor := current_floor e + 1\<rparr>
        else e\<lparr>current_floor := current_floor e - 1\<rparr>)"

definition move_to_floor :: "Elevator \<Rightarrow> int \<Rightarrow> Elevator" where
  "move_to_floor e target_floor =
     (if target_floor = current_floor e then e
      else
        (let e1 = (if target_floor > current_floor e then e\<lparr>direction := UP\<rparr>
                   else e\<lparr>direction := DOWN\<rparr>);
             floors_to_move = nat \<bar>target_floor - current_floor e1\<bar>
         in move_loop floors_to_move e1))"

text \<open>
  \<^verbatim>\<open>_get_next_floor\<close> calls itself after each change of direction. The first
  argument is the number of nested calls the interpreter still allows (its
  recursion limit less the frames in use); a call beyond it raises
  \<^verbatim>\<open>RecursionError\<close>. The elevator is returned in every case, since the method
  assigns \<^verbatim>\<open>_direction\<close> before it calls itself.
\<close>

fun get_next_floor :: "nat \<Rightarrow> Elevator \<Rightarrow> (py_error + int option) \<times> Elevator" where
  "get_next_floor 0 e = (Inl RecursionError, e)"
| "get_next_floor (Suc depth) e =
     (if requested_floors e = {} then (Inr None, e)
      else if direction e = UP then
        (let floors_in_direction = Set.filter (\<lambda>f. f > current_floor e) (requested_floors e) in
         if floors_in_direction = {} then get_next_floor depth (e\<lparr>direction := DOWN\<rparr>)
         else (Inr (Some (Min floors_in_direction)), e))
      else if direction e = DOWN then
        (let floors_in_direction = Set.filter (\<lambda>f. f < current_floor e) (requested_floors e) in
         if floors_in_direction = {} then get_next_floor depth (e\<lparr>direction := UP\<rparr>)
         else (Inr (Some (Max floors_in_direction)), e))
      else if requested_floors e \<noteq> {} then
        (let first = Min (requested_floors e) in
         get_next_floor depth
           (e\<lparr>direction := (if first > current_floor e then UP else DOWN)\<rparr>))
      else (Inr None, e))"

text \<open>
  \<^verbatim>\<open>process_next_request\<close>, with the call depth left for \<^verbatim>\<open>_get_next_floor\<close>.
  An exception leaves the elevator as it was when it was raised.
\<close>

definition process_next_request :: "nat \<Rightarrow> Elevator \<Rightarrow> (py_error + bool) \<times> Elevator" where
  "process_next_request depth e =
     (case get_next_floor depth e of
        (Inl err, e1) \<Rightarrow> (Inl err, e1)
      | (Inr None, e1) \<Rightarrow> (Inr False, e1\<lparr>direction := IDLE\<rparr>)
      | (Inr (Some next_floor), e1) \<Rightarrow>
          (let e2 = move_to_floor e1 next_floor;
               e3 = (if \<not> is_open (door e2) then e2\<lparr>door := door_open (door e2)\<rparr> else e2)
           in
             if next_floor \<in> requested_floors e3 then
               (case floor_buttons e3 next_floor of
                  None \<Rightarrow> (Inl KeyError, e3)
                | Some button \<Rightarrow>
                    (let e4 = e3\<lparr>floor_buttons := (floor_buttons e3)(next_floor \<mapsto> release button)\<rparr>;
                         e5 = e4\<lparr>requested_floors := requested_floors e4 - {next_floor}\<rparr>;
                         e6 = (if \<not> is_closed (door e5) then e5\<lparr>door := door_close (door e5)\<rparr>
                               else e5)
                     in (Inr True, e6)))
             else
               (let e6 = (if \<not> is_closed (door e3) then e3\<lparr>door := door_close (door e3)\<rparr>
                          else e3)
                in (Inr True, e6))))"

subsection \<open>The predicates of the specification\<close>

text \<open>\<open>min_above e f\<close>: the floor \<open>f\<close> is the least pending floor strictly above
  the current floor; \<open>max_below e f\<close>: it is the greatest pending floor strictly
  below.\<close>

definition min_above :: "Elevator \<Rightarrow> int \<Rightarrow> bool" where
  "min_above e f \<longleftrightarrow>
     f \<in> requested_floors e \<and> current_floor e < f \<and>
     (\<forall>g\<in>requested_floors e. current_floor e < g \<longrightarrow> f \<le> g)"

definition max_below :: "Elevator \<Rightarrow> int \<Rightarrow> bool" where
  "max_below e f \<longleftrightarrow>
     f \<in> requested_floors e \<and> f < current_floor e \<and>
     (\<forall>g\<in>requested_floors e. g < current_floor e \<longrightarrow> g \<le> f)"


text \<open>Every pending floor has a button, and the button is pressed.\<close>

definition requested_pressed :: "Elevator \<Rightarrow> bool" where
  "requested_pressed e \<longleftrightarrow>
     (\<forall>f\<in>requested_floors e.
        case floor_buttons e f of None \<Rightarrow> False | Some b \<Rightarrow> is_pressed b)"

text \<open>A floor, the current floor, every pending floor within the configured bounds.\<close>

definition floor_in_bounds :: "Elevator \<Rightarrow> int \<Rightarrow> bool" where
  "floor_in_bounds e f \<longleftrightarrow> min_floors (config e) \<le> f \<and> f \<le> max_floors (config e)"

definition current_in_bounds :: "Elevator \<Rightarrow> bool" where
  "current_in_bounds e \<longleftrightarrow> floor_in_bounds e (current_floor e)"

definition requests_in_bounds :: "Elevator \<Rightarrow> bool" where
  "requests_in_bounds e \<longleftrightarrow> (\<forall>f\<in>requested_floors e. floor_in_bounds e f)"

subsection \<open>States used as examples\<close>

text \<open>The elevator as \<^verbatim>\<open>InteractiveElevatorMode\<close> builds it: default
  configuration, at floor 1.\<close>

definition lobby :: Elevator where
  "lobby = new_Elevator default_config ''A''"

text \<open>Going up at floor 5 with floors 3, 8 and 10 pending; going up at floor 12
  with floors 3 and 8 pending.\<close>

definition at_5_going_up :: Elevator where
  "at_5_going_up = lobby\<lparr>current_floor := 5, direction := UP, requested_floors := {3, 8, 10}\<rparr>"

definition at_12_going_up :: Elevator where
  "at_12_going_up = lobby\<lparr>current_floor := 12, direction := UP, requested_floors := {3, 8}\<rparr>"

text \<open>Going down at floor 9 with floors 2, 6 and 11 pending; going down at floor 2
  with floors 7 and 9 pending.\<close>

definition at_9_going_down :: Elevator where
  "at_9_going_down = lobby\<lparr>current_floor := 9, direction := DOWN, requested_floors := {2, 6, 11}\<rparr>"

definition at_2_going_down :: Elevator where
  "at_2_going_down = lobby\<lparr>current_floor := 2, direction := DOWN, requested_floors := {7, 9}\<rparr>"

text \<open>Elevator C of \<^verbatim>\<open>ElevatorAdventureGame\<close> when the constructor's draw sets the
  button of floor 5 stuck.\<close>

definition elevator_c :: Elevator where
  "elevator_c = lobby\<lparr>floor_buttons := (floor_buttons lobby)(5 \<mapsto> set_stuck (new_Button 5) True)\<rparr>"

text \<open>The lobby elevator after the buttons of all fifteen floors were pressed.\<close>

definition all_pressed :: Elevator where
  "all_pressed = foldl (\<lambda>e f. snd (press_floor_button e f)) lobby [1..15]"


section \<open>Facts about the movement loop and the dispatch query\<close>

text \<open>The loop of \<^verbatim>\<open>move_to_floor\<close> only changes the current floor, by one floor
  per round; the method ends at its target and sets the direction towards it.\<close>

lemma move_loop_eq:
  "move_loop k e =
     e\<lparr>current_floor :=
          (if direction e = UP then current_floor e + int k else current_floor e - int k)\<rparr>"
  by (induction k arbitrary: e) auto

lemma move_to_floor_eq:
  "move_to_floor e t =
     (if t = current_floor e then e
      else e\<lparr>direction := (if t > current_floor e then UP else DOWN), current_floor := t\<rparr>)"
  by (auto simp: move_to_floor_def move_loop_eq Let_def)

lemma get_next_floor_frame:
  "snd (get_next_floor n e) = e\<lparr>direction := direction (snd (get_next_floor n e))\<rparr>"
proof (induction n arbitrary: e)
  case 0
  show ?case by simp
next
  case (Suc n)
  have up: "snd (get_next_floor n (e\<lparr>direction := UP\<rparr>)) =
        e\<lparr>direction := direction (snd (get_next_floor n (e\<lparr>direction := UP\<rparr>)))\<rparr>"
    using Suc.IH [of "e\<lparr>direction := UP\<rparr>"] by simp
  have down: "snd (get_next_floor n (e\<lparr>direction := DOWN\<rparr>)) =
        e\<lparr>direction := direction (snd (get_next_floor n (e\<lparr>direction := DOWN\<rparr>)))\<rparr>"
    using Suc.IH [of "e\<lparr>direction := DOWN\<rparr>"] by simp
  show ?case
    using up down by (simp add: Let_def del: Set.filter_eq)
qed

lemma get_next_floor_None:
  "get_next_floor n e = (Inr None, e') \<Longrightarrow> requested_floors e = {} \<and> e' = e"
proof (induction n arbitrary: e)
  case 0
  then show ?case by simp
next
  case (Suc n)
  show ?case
  proof (cases "requested_floors e = {}")
    case True
    with Suc.prems show ?thesis by simp
  next
    case False
    with Suc.prems Suc.IH [of "e\<lparr>direction := UP\<rparr>"] Suc.IH [of "e\<lparr>direction := DOWN\<rparr>"]
    show ?thesis
      by (simp add: Let_def split: if_splits del: Set.filter_eq)
  qed
qed

lemma get_next_floor_Some:
  assumes "finite (requested_floors e)"
  shows "get_next_floor n e = (Inr (Some f), e') \<Longrightarrow>
     f \<in> requested_floors e \<and> f \<noteq> current_floor e \<and> direction e' \<noteq> IDLE"
  using assms
proof (induction n arbitrary: e)
  case 0
  then show ?case by simp
next
  case (Suc n)
  let ?above = "Set.filter (\<lambda>f. f > current_floor e) (requested_floors e)"
  let ?below = "Set.filter (\<lambda>f. f < current_floor e) (requested_floors e)"
  have fin: "finite ?above" "finite ?below"
    using Suc.prems(2) by simp_all
  have above: "?above \<noteq> {} \<Longrightarrow> Min ?above \<in> ?above"
    using fin by (rule_tac Min_in)
  have below: "?below \<noteq> {} \<Longrightarrow> Max ?below \<in> ?below"
    using fin by (rule_tac Max_in)
  have up: "get_next_floor n (e\<lparr>direction := UP\<rparr>) = (Inr (Some f), e') \<Longrightarrow> ?case"
    using Suc.IH [of "e\<lparr>direction := UP\<rparr>"] Suc.prems(2) by simp
  have down: "get_next_floor n (e\<lparr>direction := DOWN\<rparr>) = (Inr (Some f), e') \<Longrightarrow> ?case"
    using Suc.IH [of "e\<lparr>direction := DOWN\<rparr>"] Suc.prems(2) by simp
  show ?case
  proof (cases "direction e")
    case UP
    show ?thesis
    proof (cases "?above = {}")
      case True
      with UP Suc.prems(1) down show ?thesis
        by (simp add: Let_def split: if_splits del: Set.filter_eq)
    next
      case False
      with UP Suc.prems(1) above show ?thesis
        by (auto simp: Let_def split: if_splits)
    qed
  next
    case DOWN
    show ?thesis
    proof (cases "?below = {}")
      case True
      with DOWN Suc.prems(1) up show ?thesis
        by (simp add: Let_def split: if_splits del: Set.filter_eq)
    next
      case False
      with DOWN Suc.prems(1) below show ?thesis
        by (auto simp: Let_def split: if_splits)
    qed
  next
    case IDLE
    with Suc.prems(1) up down show ?thesis
      by (simp add: Let_def split: if_splits del: Set.filter_eq)
  qed
qed


lemma get_next_floor_stuck:
  "requested_floors e = {current_floor e} \<Longrightarrow> fst (get_next_floor n e) = Inl RecursionError"
proof (induction n arbitrary: e)
  case 0
  show ?case by simp
next
  case (Suc n)
  with Suc.IH [of "e\<lparr>direction := UP\<rparr>"] Suc.IH [of "e\<lparr>direction := DOWN\<rparr>"]
  show ?case
    by (simp add: Let_def)
qed

text \<open>The constructor's buttons, and what \<^verbatim>\<open>press_floor_button\<close> and
  \<^verbatim>\<open>add_random_stop\<close> leave alone.\<close>

lemma foldl_fresh_buttons:
  "foldl (\<lambda>m f. m(f \<mapsto> g f)) m0 fs k = (if k \<in> set fs then Some (g k) else m0 k)"
  by (induction fs arbitrary: m0) auto

lemma new_Elevator_buttons:
  "floor_buttons (new_Elevator c eid) f =
     (if min_floors c \<le> f \<and> f \<le> max_floors c then Some (new_Button f) else None)"
  by (simp add: new_Elevator_def foldl_fresh_buttons)

lemma lobby_fields:
  "config lobby = default_config" "current_floor lobby = 1" "direction lobby = IDLE"
  "requested_floors lobby = {}" "door lobby = new_ElevatorDoor"
  by (simp_all add: lobby_def new_Elevator_def default_config_def)

lemma lobby_buttons:
  "floor_buttons lobby f = (if 1 \<le> f \<and> f \<le> 15 then Some (new_Button f) else None)"
  by (simp add: lobby_def new_Elevator_buttons default_config_def)

lemma press_floor_button_config:
  "config (snd (press_floor_button e f)) = config e"
  by (simp add: press_floor_button_def press_def Let_def split: option.splits)

lemma press_floor_button_current:
  "current_floor (snd (press_floor_button e f)) = current_floor e"
  by (simp add: press_floor_button_def press_def Let_def split: option.splits)

lemma press_floor_button_requested:
  "requested_floors (snd (press_floor_button e f)) =
     (if fst (press_floor_button e f) = Inr True then insert f (requested_floors e)
      else requested_floors e)"
  by (simp add: press_floor_button_def press_def Let_def split: option.splits)

lemma press_floor_button_True:
  "fst (press_floor_button e f) = Inr True \<Longrightarrow> min_floors (config e) \<le> f \<and> f \<le> max_floors (config e)"
  by (simp add: press_floor_button_def press_def Let_def split: option.splits if_splits)

lemma randint_in_range:
  assumes "randint a b rnd = Inr r"
  shows "a \<le> r \<and> r \<le> b"
proof -
  from assms have ab: "a \<le> b" and req: "r = a + int rnd mod (b - a + 1)"
    by (auto simp: randint_def split: if_splits)
  from ab have pos: "0 < b - a + 1" by simp
  have "0 \<le> int rnd mod (b - a + 1)"
    using pos by (rule pos_mod_sign)
  moreover have "int rnd mod (b - a + 1) < b - a + 1"
    using pos by (rule pos_mod_bound)
  ultimately show ?thesis using req by simp
qed

lemma add_random_stop_cases:
  "snd (add_random_stop e rnd) = e \<or>
   (\<exists>r. int (card (requested_floors e)) < max_floors (config e) - min_floors (config e) \<and>
        min_floors (config e) \<le> r \<and> r \<le> max_floors (config e) \<and> r \<noteq> current_floor e \<and>
        snd (add_random_stop e rnd) = e\<lparr>requested_floors := insert r (requested_floors e)\<rparr>)"
  using randint_in_range [of "min_floors (config e)" "max_floors (config e)" rnd]
  by (auto simp: add_random_stop_def split: sum.splits)

lemma add_random_stop_no_error: "fst (add_random_stop e rnd) = Inr ()"
proof (cases "int (card (requested_floors e)) < max_floors (config e) - min_floors (config e)")
  case True
  then have "min_floors (config e) \<le> max_floors (config e)" by simp
  with True show ?thesis
    by (simp add: add_random_stop_def randint_def)
next
  case False
  then show ?thesis by (simp add: add_random_stop_def)
qed


section \<open>The dispatch query\<close>

lemma filter_insert:
  "Set.filter P (insert a A) = (if P a then insert a (Set.filter P A) else Set.filter P A)"
  by auto

lemma filter_empty: "Set.filter P {} = {}"
  by auto

lemma min_above_Min:
  assumes "finite (requested_floors e)" and "\<exists>g\<in>requested_floors e. current_floor e < g"
  shows "min_above e (Min (Set.filter (\<lambda>f. f > current_floor e) (requested_floors e)))"
proof -
  let ?A = "Set.filter (\<lambda>f. f > current_floor e) (requested_floors e)"
  have fin: "finite ?A" using assms(1) by simp
  have ne: "?A \<noteq> {}" using assms(2) by auto
  have "Min ?A \<in> ?A" using fin ne by (rule Min_in)
  moreover have "\<forall>g\<in>?A. Min ?A \<le> g" using fin by simp
  ultimately show ?thesis by (simp add: min_above_def)
qed

lemma max_below_Max:
  assumes "finite (requested_floors e)" and "\<exists>g\<in>requested_floors e. g < current_floor e"
  shows "max_below e (Max (Set.filter (\<lambda>f. f < current_floor e) (requested_floors e)))"
proof -
  let ?A = "Set.filter (\<lambda>f. f < current_floor e) (requested_floors e)"
  have fin: "finite ?A" using assms(1) by simp
  have ne: "?A \<noteq> {}" using assms(2) by auto
  have "Max ?A \<in> ?A" using fin ne by (rule Max_in)
  moreover have "\<forall>g\<in>?A. g \<le> Max ?A" using fin by simp
  ultimately show ?thesis by (simp add: max_below_def)
qed

lemma get_next_floor_up_ahead:
  assumes "direction e = UP" and "\<exists>g\<in>requested_floors e. current_floor e < g"
  shows "get_next_floor (Suc n) e =
     (Inr (Some (Min (Set.filter (\<lambda>f. f > current_floor e) (requested_floors e)))), e)"
  using assms by (auto simp: Let_def)

lemma get_next_floor_down_ahead:
  assumes "direction e = DOWN" and "\<exists>g\<in>requested_floors e. g < current_floor e"
  shows "get_next_floor (Suc n) e =
     (Inr (Some (Max (Set.filter (\<lambda>f. f < current_floor e) (requested_floors e)))), e)"
  using assms by (auto simp: Let_def)

lemma get_next_floor_up_reverse:
  assumes "direction e = UP" and "\<not> (\<exists>g\<in>requested_floors e. current_floor e < g)"
    and "\<exists>g\<in>requested_floors e. g < current_floor e"
  shows "get_next_floor (Suc (Suc n)) e =
     (Inr (Some (Max (Set.filter (\<lambda>f. f < current_floor e) (requested_floors e)))),
      e\<lparr>direction := DOWN\<rparr>)"
proof -
  have "get_next_floor (Suc (Suc n)) e = get_next_floor (Suc n) (e\<lparr>direction := DOWN\<rparr>)"
    using assms by (auto simp: Let_def)
  also have "\<dots> = (Inr (Some (Max (Set.filter (\<lambda>f. f < current_floor e) (requested_floors e)))),
      e\<lparr>direction := DOWN\<rparr>)"
    using get_next_floor_down_ahead [of "e\<lparr>direction := DOWN\<rparr>" n] assms(3) by simp
  finally show ?thesis .
qed

lemma get_next_floor_down_reverse:
  assumes "direction e = DOWN" and "\<not> (\<exists>g\<in>requested_floors e. g < current_floor e)"
    and "\<exists>g\<in>requested_floors e. current_floor e < g"
  shows "get_next_floor (Suc (Suc n)) e =
     (Inr (Some (Min (Set.filter (\<lambda>f. f > current_floor e) (requested_floors e)))),
      e\<lparr>direction := UP\<rparr>)"
proof -
  have "get_next_floor (Suc (Suc n)) e = get_next_floor (Suc n) (e\<lparr>direction := UP\<rparr>)"
    using assms by (auto simp: Let_def)
  also have "\<dots> = (Inr (Some (Min (Set.filter (\<lambda>f. f > current_floor e) (requested_floors e)))),
      e\<lparr>direction := UP\<rparr>)"
    using get_next_floor_up_ahead [of "e\<lparr>direction := UP\<rparr>" n] assms(3) by simp
  finally show ?thesis .
qed

text \<open>
  Claim C1. With direction Up, when some pending floor lies strictly above the
  current floor the query returns the least such floor and leaves the elevator
  as it is; when none does but some pending floor lies strictly below, it
  returns the greatest floor below, and the direction field is Down afterwards.
  With direction Down the same holds with above and below exchanged. (A pending
  floor above or below exists only in a non-empty set.) The set is finite, and
  the interpreter allows two nested calls.
\<close>

theorem get_next_floor_scan:
  assumes fin: "finite (requested_floors e)" and depth: "2 \<le> depth"
  shows
    "(direction e = UP \<and> (\<exists>g\<in>requested_floors e. current_floor e < g) \<longrightarrow>
        (\<exists>f. get_next_floor depth e = (Inr (Some f), e) \<and> min_above e f)) \<and>
     (direction e = UP \<and> \<not> (\<exists>g\<in>requested_floors e. current_floor e < g) \<and>
        (\<exists>g\<in>requested_floors e. g < current_floor e) \<longrightarrow>
        (\<exists>f. get_next_floor depth e = (Inr (Some f), e\<lparr>direction := DOWN\<rparr>) \<and> max_below e f)) \<and>
     (direction e = DOWN \<and> (\<exists>g\<in>requested_floors e. g < current_floor e) \<longrightarrow>
        (\<exists>f. get_next_floor depth e = (Inr (Some f), e) \<and> max_below e f)) \<and>
     (direction e = DOWN \<and> \<not> (\<exists>g\<in>requested_floors e. g < current_floor e) \<and>
        (\<exists>g\<in>requested_floors e. current_floor e < g) \<longrightarrow>
        (\<exists>f. get_next_floor depth e = (Inr (Some f), e\<lparr>direction := UP\<rparr>) \<and> min_above e f))"
proof -
  from depth obtain n where n: "depth = Suc (Suc n)"
    by (metis Suc_le_D numeral_2_eq_2 Suc_le_mono)
  show ?thesis
    unfolding n
    using get_next_floor_up_ahead [of e "Suc n"] get_next_floor_down_ahead [of e "Suc n"]
      get_next_floor_up_reverse [of e n] get_next_floor_down_reverse [of e n]
      min_above_Min [OF fin] max_below_Max [OF fin]
    by (simp del: get_next_floor.simps Set.filter_eq)
qed

theorem get_next_floor_scan_witness:
  "get_next_floor 2 at_5_going_up = (Inr (Some 8), at_5_going_up) \<and>
   get_next_floor 2 at_12_going_up = (Inr (Some 8), at_12_going_up\<lparr>direction := DOWN\<rparr>) \<and>
   get_next_floor 2 at_9_going_down = (Inr (Some 6), at_9_going_down) \<and>
   get_next_floor 2 at_2_going_down = (Inr (Some 7), at_2_going_down\<lparr>direction := UP\<rparr>)"
  using get_next_floor_scan [of at_5_going_up 2] get_next_floor_scan [of at_12_going_up 2]
    get_next_floor_scan [of at_9_going_down 2] get_next_floor_scan [of at_2_going_down 2]
  by (simp add: at_5_going_up_def at_12_going_up_def at_9_going_down_def at_2_going_down_def
      numeral_2_eq_2 filter_insert filter_empty del: Set.filter_eq)

text \<open>
  Claim C2, at the state where the claim fails. Pressing the button of floor 1
  in the lobby, where the elevator stands at floor 1, succeeds and leaves floor 1
  as the only pending floor. The query then finds no floor strictly above and no
  floor strictly below, reverses the direction and calls itself again without
  end: whatever depth the interpreter allows, it raises \<^verbatim>\<open>RecursionError\<close> and
  returns no floor.
\<close>

theorem get_next_floor_current_floor_only:
  "fst (get_next_floor depth (snd (press_floor_button lobby 1))) = Inl RecursionError"
proof -
  have "floor_buttons lobby 1 = Some (new_Button 1)"
    by (simp add: lobby_def new_Elevator_def default_config_def upto_rec1)
  then have "requested_floors (snd (press_floor_button lobby 1)) = {1}"
    "current_floor (snd (press_floor_button lobby 1)) = 1"
    by (simp_all add: press_floor_button_def press_def new_Button_def Let_def
        lobby_def new_Elevator_def default_config_def)
  then show ?thesis
    by (simp add: get_next_floor_stuck)
qed

text \<open>
  Away from that state the query does return: as soon as one pending floor
  differs from the current floor, three nested calls are enough (one to leave
  Idle, one to reverse, one to select).
\<close>

lemma get_next_floor_returns_moving:
  assumes "direction e \<noteq> IDLE" and "\<exists>g\<in>requested_floors e. g \<noteq> current_floor e"
  shows "\<exists>f e'. get_next_floor (Suc (Suc n)) e = (Inr (Some f), e')"
proof (cases "direction e")
  case UP
  show ?thesis
  proof (cases "\<exists>g\<in>requested_floors e. current_floor e < g")
    case True
    with UP get_next_floor_up_ahead [of e "Suc n"] show ?thesis by simp
  next
    case False
    with assms(2) have "\<exists>g\<in>requested_floors e. g < current_floor e"
      by (meson linorder_neqE_linordered_idom)
    with UP False get_next_floor_up_reverse [of e n] show ?thesis by simp
  qed
next
  case DOWN
  show ?thesis
  proof (cases "\<exists>g\<in>requested_floors e. g < current_floor e")
    case True
    with DOWN get_next_floor_down_ahead [of e "Suc n"] show ?thesis by simp
  next
    case False
    with assms(2) have "\<exists>g\<in>requested_floors e. current_floor e < g"
      by (meson linorder_neqE_linordered_idom)
    with DOWN False get_next_floor_down_reverse [of e n] show ?thesis by simp
  qed
next
  case IDLE
  with assms(1) show ?thesis by simp
qed

lemma get_next_floor_returns:
  assumes "\<exists>g\<in>requested_floors e. g \<noteq> current_floor e"
  shows "\<exists>f e'. get_next_floor (Suc (Suc (Suc n))) e = (Inr (Some f), e')"
proof (cases "direction e = IDLE")
  case False
  then show ?thesis
    using get_next_floor_returns_moving [of e "Suc n"] assms by simp
next
  case True
  let ?d = "if Min (requested_floors e) > current_floor e then UP else DOWN"
  from assms have ne: "requested_floors e \<noteq> {}" by auto
  have "get_next_floor (Suc (Suc (Suc n))) e = get_next_floor (Suc (Suc n)) (e\<lparr>direction := ?d\<rparr>)"
    using True ne by (simp add: Let_def del: Set.filter_eq)
  moreover have "\<exists>f e'. get_next_floor (Suc (Suc n)) (e\<lparr>direction := ?d\<rparr>) = (Inr (Some f), e')"
    using get_next_floor_returns_moving [of "e\<lparr>direction := ?d\<rparr>" n] assms by simp
  ultimately show ?thesis by simp
qed

section \<open>The door\<close>

text \<open>
  Claim C7. \<^verbatim>\<open>force_open\<close> returns True exactly when the door is Closing at the
  call, and then the door ends Open; in every other state it returns False and
  the door is unchanged.
\<close>

theorem force_open_only_when_closing:
  "(fst (force_open d) \<longleftrightarrow> state d = CLOSING) \<and>
   (state d = CLOSING \<longrightarrow> state (snd (force_open d)) = OPEN) \<and>
   (state d \<noteq> CLOSING \<longrightarrow> snd (force_open d) = d)"
  by (simp add: force_open_def)

theorem force_open_only_when_closing_witness:
  "fst (force_open \<lparr>state = CLOSING\<rparr>) \<and>
   state (snd (force_open \<lparr>state = CLOSING\<rparr>)) = OPEN \<and>
   \<not> fst (force_open \<lparr>state = OPENING\<rparr>) \<and>
   snd (force_open \<lparr>state = OPENING\<rparr>) = \<lparr>state = OPENING\<rparr>"
  using force_open_only_when_closing [of "\<lparr>state = CLOSING\<rparr>"]
        force_open_only_when_closing [of "\<lparr>state = OPENING\<rparr>"]
  by simp

section \<open>Pressing a floor button\<close>

text \<open>
  Claim C5. For a floor within the bounds whose button exists and is not stuck,
  \<^verbatim>\<open>press_floor_button\<close> returns True; afterwards the floor is pending and its
  button is pressed; an Idle direction becomes Up when the floor is above the
  current floor and Down otherwise, any other direction is unchanged.
\<close>

theorem press_floor_button_accepts:
  assumes "min_floors (config e) \<le> f" and "f \<le> max_floors (config e)"
    and "floor_buttons e f = Some b" and "\<not> is_stuck b"
  shows "fst (press_floor_button e f) = Inr True \<and>
     f \<in> requested_floors (snd (press_floor_button e f)) \<and>
     (\<exists>b'. floor_buttons (snd (press_floor_button e f)) f = Some b' \<and> is_pressed b') \<and>
     direction (snd (press_floor_button e f)) =
       (if direction e = IDLE then (if f > current_floor e then UP else DOWN) else direction e)"
  using assms by (simp add: press_floor_button_def press_def Let_def)

theorem press_floor_button_accepts_witness:
  "fst (press_floor_button lobby 4) = Inr True \<and>
   4 \<in> requested_floors (snd (press_floor_button lobby 4)) \<and>
   (\<exists>b'. floor_buttons (snd (press_floor_button lobby 4)) 4 = Some b' \<and> is_pressed b') \<and>
   direction (snd (press_floor_button lobby 4)) = UP \<and>
   fst (press_floor_button at_5_going_up 2) = Inr True \<and>
   direction (snd (press_floor_button at_5_going_up 2)) = UP"
  using press_floor_button_accepts [of lobby 4 "new_Button 4"]
    press_floor_button_accepts [of at_5_going_up 2 "new_Button 2"]
  by (simp add: lobby_fields lobby_buttons at_5_going_up_def default_config_def new_Button_def)

text \<open>
  Claim C6. For a floor outside the bounds, or a floor whose button is stuck,
  \<^verbatim>\<open>press_floor_button\<close> returns False and the elevator afterwards is the
  elevator before the call, in every field.
\<close>

theorem press_floor_button_rejects:
  assumes "f < min_floors (config e) \<or> max_floors (config e) < f \<or>
     (\<exists>b. floor_buttons e f = Some b \<and> is_stuck b)"
  shows "press_floor_button e f = (Inr False, e)"
proof (cases "min_floors (config e) \<le> f \<and> f \<le> max_floors (config e)")
  case False
  then show ?thesis by (simp add: press_floor_button_def)
next
  case True
  with assms obtain b where b: "floor_buttons e f = Some b" "is_stuck b"
    by auto
  then have "(floor_buttons e)(f \<mapsto> b) = floor_buttons e"
    by (simp add: map_upd_triv)
  with True b show ?thesis
    by (simp add: press_floor_button_def press_def)
qed

theorem press_floor_button_rejects_witness:
  "press_floor_button lobby 0 = (Inr False, lobby) \<and>
   press_floor_button lobby 16 = (Inr False, lobby) \<and>
   press_floor_button elevator_c 5 = (Inr False, elevator_c)"
  using press_floor_button_rejects [of 0 lobby] press_floor_button_rejects [of 16 lobby]
    press_floor_button_rejects [of 5 elevator_c]
  by (simp add: lobby_fields elevator_c_def default_config_def set_stuck_def)

text \<open>
  Claim C10. Every pending floor lies within the configured bounds: this holds
  for a new elevator and is kept by \<^verbatim>\<open>press_floor_button\<close> and by
  \<^verbatim>\<open>add_random_stop\<close>, whatever floor is pressed and whatever the draw.
\<close>

theorem requests_stay_in_bounds:
  "requests_in_bounds (new_Elevator c eid) \<and>
   (requests_in_bounds e \<longrightarrow> requests_in_bounds (snd (press_floor_button e f))) \<and>
   (requests_in_bounds e \<longrightarrow> requests_in_bounds (snd (add_random_stop e rnd)))"
proof (intro conjI impI)
  show "requests_in_bounds (new_Elevator c eid)"
    by (simp add: requests_in_bounds_def new_Elevator_def)
next
  assume "requests_in_bounds e"
  then show "requests_in_bounds (snd (press_floor_button e f))"
    using press_floor_button_True [of e f]
    by (auto simp: requests_in_bounds_def floor_in_bounds_def press_floor_button_config
        press_floor_button_requested)
next
  assume "requests_in_bounds e"
  then show "requests_in_bounds (snd (add_random_stop e rnd))"
    using add_random_stop_cases [of e rnd]
    by (auto simp: requests_in_bounds_def floor_in_bounds_def)
qed

theorem requests_stay_in_bounds_witness:
  "requests_in_bounds lobby \<and>
   requested_floors (snd (press_floor_button lobby 4)) = {4} \<and>
   requests_in_bounds (snd (press_floor_button lobby 4)) \<and>
   requested_floors (snd (add_random_stop (snd (press_floor_button lobby 4)) 9)) = {4, 10} \<and>
   requests_in_bounds (snd (add_random_stop (snd (press_floor_button lobby 4)) 9))"
proof -
  let ?e1 = "snd (press_floor_button lobby 4)"
  have r0: "requests_in_bounds lobby"
    using requests_stay_in_bounds [of default_config "''A''"] by (simp add: lobby_def)
  have r1: "requests_in_bounds ?e1"
    using requests_stay_in_bounds [of _ _ lobby 4] r0 by blast
  have r2: "requests_in_bounds (snd (add_random_stop ?e1 9))"
    using requests_stay_in_bounds [of _ _ ?e1 _ 9] r1 by blast
  have s1: "requested_floors ?e1 = {4}"
    by (simp add: press_floor_button_def press_def Let_def lobby_fields lobby_buttons
        default_config_def new_Button_def)
  have s2: "requested_floors (snd (add_random_stop ?e1 9)) = {4, 10}"
    by (auto simp: add_random_stop_def randint_def s1 press_floor_button_config
        press_floor_button_current lobby_fields default_config_def)
  show ?thesis using r0 r1 r2 s1 s2 by simp
qed

section \<open>The service cycle\<close>

text \<open>
  What \<^verbatim>\<open>process_next_request\<close> does with each outcome of the query: an
  exception passes through, no floor sets the direction Idle, a floor moves the
  elevator there and removes it from the pending set.
\<close>

lemma get_next_floor_fields:
  assumes "get_next_floor n e = (r, e1)"
  shows "config e1 = config e" and "current_floor e1 = current_floor e"
    and "requested_floors e1 = requested_floors e" and "floor_buttons e1 = floor_buttons e"
    and "door e1 = door e"
proof -
  have eq: "e1 = e\<lparr>direction := direction e1\<rparr>"
    using get_next_floor_frame [of n e] assms by simp
  from arg_cong [OF eq, of config] show "config e1 = config e" by simp
  from arg_cong [OF eq, of current_floor] show "current_floor e1 = current_floor e" by simp
  from arg_cong [OF eq, of requested_floors] show "requested_floors e1 = requested_floors e" by simp
  from arg_cong [OF eq, of floor_buttons] show "floor_buttons e1 = floor_buttons e" by simp
  from arg_cong [OF eq, of door] show "door e1 = door e" by simp
qed

lemma process_next_request_error:
  assumes "get_next_floor depth e = (Inl err, e1)"
  shows "process_next_request depth e = (Inl err, e1)"
  using assms by (simp add: process_next_request_def)

lemma process_next_request_idle:
  assumes "get_next_floor depth e = (Inr None, e1)"
  shows "process_next_request depth e = (Inr False, e\<lparr>direction := IDLE\<rparr>)"
  using assms get_next_floor_None [OF assms] by (simp add: process_next_request_def)

lemma process_next_request_stop:
  assumes "get_next_floor depth e = (Inr (Some nf), e1)"
  shows "current_floor (snd (process_next_request depth e)) = nf"
    and "config (snd (process_next_request depth e)) = config e"
    and "direction (snd (process_next_request depth e)) = direction (move_to_floor e1 nf)"
    and "requested_floors (snd (process_next_request depth e)) \<subseteq> requested_floors e"
    and "fst (process_next_request depth e) = Inr True \<Longrightarrow>
           requested_floors (snd (process_next_request depth e)) = requested_floors e - {nf}"
    and "\<And>f. f \<in> requested_floors (snd (process_next_request depth e)) \<Longrightarrow>
           floor_buttons (snd (process_next_request depth e)) f = floor_buttons e f"
  using assms get_next_floor_fields [OF assms]
  by (auto simp: process_next_request_def move_to_floor_eq Let_def split: option.splits)


lemma move_to_floor_not_idle:
  "direction e \<noteq> IDLE \<Longrightarrow> direction (move_to_floor e t) \<noteq> IDLE"
  by (simp add: move_to_floor_eq)

lemma get_next_floor_Some_not_idle:
  "get_next_floor n e = (Inr (Some f), e') \<Longrightarrow> direction e' \<noteq> IDLE"
proof (induction n arbitrary: e)
  case 0
  then show ?case by simp
next
  case (Suc n)
  from Suc.prems Suc.IH [of "e\<lparr>direction := UP\<rparr>"] Suc.IH [of "e\<lparr>direction := DOWN\<rparr>"]
  show ?case
    by (simp add: Let_def split: if_splits del: Set.filter_eq)
qed

lemma process_next_request_True:
  assumes "fst (process_next_request depth e) = Inr True"
  shows "direction (snd (process_next_request depth e)) \<noteq> IDLE"
proof -
  obtain r e1 where g: "get_next_floor depth e = (r, e1)"
    by (cases "get_next_floor depth e")
  show ?thesis
  proof (cases r)
    case (Inl err)
    with g assms show ?thesis by (simp add: process_next_request_def)
  next
    case (Inr nxt)
    show ?thesis
    proof (cases nxt)
      case None
      with Inr g assms show ?thesis
        by (simp add: process_next_request_def)
    next
      case (Some nf)
      with Inr g have g': "get_next_floor depth e = (Inr (Some nf), e1)" by simp
      from get_next_floor_Some_not_idle [OF g'] have "direction (move_to_floor e1 nf) \<noteq> IDLE"
        by (rule move_to_floor_not_idle)
      with process_next_request_stop(3) [OF g'] show ?thesis by simp
    qed
  qed
qed


lemma move_to_floor_fields:
  "config (move_to_floor e t) = config e" "requested_floors (move_to_floor e t) = requested_floors e"
  "floor_buttons (move_to_floor e t) = floor_buttons e" "door (move_to_floor e t) = door e"
  "current_floor (move_to_floor e t) = t"
  by (simp_all add: move_to_floor_eq)

lemma process_next_request_keeps_pressed:
  assumes "requested_pressed e"
  shows "requested_pressed (snd (process_next_request depth e))"
proof -
  obtain r e1 where g: "get_next_floor depth e = (r, e1)"
    by (cases "get_next_floor depth e")
  note same = get_next_floor_fields [OF g]
  show ?thesis
  proof (cases r)
    case (Inl err)
    with g assms same show ?thesis
      by (simp add: process_next_request_def requested_pressed_def)
  next
    case (Inr nxt)
    show ?thesis
    proof (cases nxt)
      case None
      with Inr g assms same show ?thesis
        by (simp add: process_next_request_def requested_pressed_def)
    next
      case (Some nf)
      with Inr g have g': "get_next_floor depth e = (Inr (Some nf), e1)" by simp
      show ?thesis
        unfolding requested_pressed_def
      proof
        fix f
        assume f: "f \<in> requested_floors (snd (process_next_request depth e))"
        with process_next_request_stop(4) [OF g'] have "f \<in> requested_floors e" by auto
        with assms have "case floor_buttons e f of None \<Rightarrow> False | Some b \<Rightarrow> is_pressed b"
          by (simp add: requested_pressed_def)
        with process_next_request_stop(6) [OF g' f]
        show "case floor_buttons (snd (process_next_request depth e)) f of
                None \<Rightarrow> False | Some b \<Rightarrow> is_pressed b"
          by simp
      qed
    qed
  qed
qed

section \<open>Random stops\<close>

lemma card_insert_int_le:
  "int (card (A::int set)) < cap \<Longrightarrow> int (card (insert r A)) \<le> cap"
proof (cases "finite A")
  case True
  assume "int (card A) < cap"
  moreover have "card (insert r A) \<le> Suc (card A)"
    using True by (simp add: card_insert_if)
  ultimately show ?thesis by simp
next
  case False
  assume "int (card A) < cap"
  with False show ?thesis by simp
qed

text \<open>
  Claim C8, as amended. \<^verbatim>\<open>add_random_stop\<close> raises nothing; afterwards the
  current floor is pending only if it was pending before; a pending set of at
  most \<open>max_floors - min_floors\<close> floors still has at most that many floors
  afterwards; and when the set has that many floors or more before the call, the
  elevator is unchanged.
\<close>

theorem add_random_stop_cap:
  "fst (add_random_stop e rnd) = Inr () \<and>
   (current_floor e \<in> requested_floors (snd (add_random_stop e rnd)) \<longrightarrow>
      current_floor e \<in> requested_floors e) \<and>
   (int (card (requested_floors e)) \<le> max_floors (config e) - min_floors (config e) \<longrightarrow>
      int (card (requested_floors (snd (add_random_stop e rnd))))
        \<le> max_floors (config e) - min_floors (config e)) \<and>
   (max_floors (config e) - min_floors (config e) \<le> int (card (requested_floors e)) \<longrightarrow>
      snd (add_random_stop e rnd) = e)"
proof (intro conjI impI)
  show "fst (add_random_stop e rnd) = Inr ()"
    by (rule add_random_stop_no_error)
next
  assume "current_floor e \<in> requested_floors (snd (add_random_stop e rnd))"
  then show "current_floor e \<in> requested_floors e"
    using add_random_stop_cases [of e rnd] by auto
next
  assume "int (card (requested_floors e)) \<le> max_floors (config e) - min_floors (config e)"
  then show "int (card (requested_floors (snd (add_random_stop e rnd))))
      \<le> max_floors (config e) - min_floors (config e)"
    using add_random_stop_cases [of e rnd] card_insert_int_le [of "requested_floors e"]
    by auto
next
  assume "max_floors (config e) - min_floors (config e) \<le> int (card (requested_floors e))"
  then show "snd (add_random_stop e rnd) = e"
    by (simp add: add_random_stop_def)
qed

text \<open>
  The claim as stated bounds the size after every call. The method only refuses
  to grow a set at the cap; \<^verbatim>\<open>press_floor_button\<close> has no cap, so with all
  fifteen buttons pressed the set has 15 floors, the cap is 14, and the size
  after \<^verbatim>\<open>add_random_stop\<close> is still above it.
\<close>

theorem add_random_stop_cap_counterexample:
  "card (requested_floors all_pressed) = 15 \<and>
   max_floors (config all_pressed) - min_floors (config all_pressed) = 14 \<and>
   \<not> int (card (requested_floors (snd (add_random_stop all_pressed 0))))
       \<le> max_floors (config all_pressed) - min_floors (config all_pressed)"
  by code_simp

theorem add_random_stop_cap_witness:
  "fst (add_random_stop at_5_going_up 4) = Inr () \<and>
   5 \<notin> requested_floors (snd (add_random_stop at_5_going_up 4)) \<and>
   int (card (requested_floors (snd (add_random_stop at_5_going_up 6)))) \<le> 14 \<and>
   snd (add_random_stop all_pressed 6) = all_pressed"
proof -
  have a: "current_floor at_5_going_up = 5" "current_floor at_5_going_up \<notin> requested_floors at_5_going_up"
    "int (card (requested_floors at_5_going_up)) \<le> max_floors (config at_5_going_up) - min_floors (config at_5_going_up)"
    "max_floors (config at_5_going_up) - min_floors (config at_5_going_up) = 14"
    by code_simp+
  have b: "max_floors (config all_pressed) - min_floors (config all_pressed)
      \<le> int (card (requested_floors all_pressed))"
    by code_simp
  show ?thesis
    using add_random_stop_cap [of at_5_going_up 4] add_random_stop_cap [of at_5_going_up 6]
      add_random_stop_cap [of all_pressed 6] a b
    by auto
qed

section \<open>Invariants of the elevator\<close>




text \<open>
  Claim C4, as amended. ``Every pending floor has its button pressed'' holds for
  a new elevator and is kept by \<^verbatim>\<open>press_floor_button\<close>, by
  \<^verbatim>\<open>process_next_request\<close> and by \<^verbatim>\<open>move_to_floor\<close>. After
  \<^verbatim>\<open>add_random_stop\<close> the floors that were pending before the call still have
  their buttons pressed.
\<close>

theorem requested_pressed_steps:
  "requested_pressed (new_Elevator c eid) \<and>
   (requested_pressed e \<longrightarrow> requested_pressed (snd (press_floor_button e f))) \<and>
   (requested_pressed e \<longrightarrow> requested_pressed (snd (process_next_request depth e))) \<and>
   (requested_pressed e \<longrightarrow> requested_pressed (move_to_floor e target)) \<and>
   (requested_pressed e \<longrightarrow>
      (\<forall>g\<in>requested_floors e.
         case floor_buttons (snd (add_random_stop e rnd)) g of
           None \<Rightarrow> False | Some b \<Rightarrow> is_pressed b))"
proof (intro conjI impI)
  show "requested_pressed (new_Elevator c eid)"
    by (simp add: requested_pressed_def new_Elevator_def)
next
  assume "requested_pressed e"
  then show "requested_pressed (snd (press_floor_button e f))"
    by (auto simp: requested_pressed_def press_floor_button_def press_def Let_def
        split: option.splits)
next
  assume "requested_pressed e"
  then show "requested_pressed (snd (process_next_request depth e))"
    by (rule process_next_request_keeps_pressed)
next
  assume "requested_pressed e"
  then show "requested_pressed (move_to_floor e target)"
    by (simp add: requested_pressed_def move_to_floor_fields)
next
  assume "requested_pressed e"
  then show "\<forall>g\<in>requested_floors e.
      case floor_buttons (snd (add_random_stop e rnd)) g of
        None \<Rightarrow> False | Some b \<Rightarrow> is_pressed b"
    using add_random_stop_cases [of e rnd] by (auto simp: requested_pressed_def)
qed

text \<open>
  The claim as stated fails at \<^verbatim>\<open>add_random_stop\<close>, which adds a floor to the
  pending set and calls no button: in the lobby it adds floor 5, whose button is
  not pressed.
\<close>

theorem requested_pressed_counterexample:
  "requested_pressed lobby \<and>
   fst (add_random_stop lobby 4) = Inr () \<and>
   requested_floors (snd (add_random_stop lobby 4)) = {5} \<and>
   (case floor_buttons (snd (add_random_stop lobby 4)) 5 of
      None \<Rightarrow> False | Some b \<Rightarrow> \<not> is_pressed b) \<and>
   \<not> requested_pressed (snd (add_random_stop lobby 4))"
  by code_simp

theorem requested_pressed_steps_witness:
  "requested_pressed lobby \<and>
   requested_pressed (snd (press_floor_button lobby 4)) \<and>
   requested_pressed (snd (process_next_request 3 (snd (press_floor_button lobby 4)))) \<and>
   requested_pressed (move_to_floor (snd (press_floor_button lobby 4)) 9) \<and>
   (case floor_buttons (snd (add_random_stop (snd (press_floor_button lobby 4)) 9)) 4 of
      None \<Rightarrow> False | Some b \<Rightarrow> is_pressed b)"
proof -
  let ?e1 = "snd (press_floor_button lobby 4)"
  have a: "requested_pressed lobby"
    using requested_pressed_steps [of default_config "''A''"] by (simp add: lobby_def)
  have b: "requested_pressed ?e1"
    using requested_pressed_steps [of _ _ lobby 4] a by blast
  have c: "requested_pressed (snd (process_next_request 3 ?e1))"
    using requested_pressed_steps [of _ _ ?e1 _ 3] b by blast
  have d: "requested_pressed (move_to_floor ?e1 9)"
    using requested_pressed_steps [of _ _ ?e1 _ _ 9] b by blast
  have s1: "4 \<in> requested_floors ?e1"
    by code_simp
  have e: "case floor_buttons (snd (add_random_stop ?e1 9)) 4 of
      None \<Rightarrow> False | Some b \<Rightarrow> is_pressed b"
    using requested_pressed_steps [of _ _ ?e1 _ _ _ 9] b s1 by blast
  show ?thesis using a b c d e by simp
qed

text \<open>
  Claim C9, as amended. The current floor lies within the bounds for a new
  elevator whose configuration has \<open>min_floors \<le> max_floors\<close>; this is kept by
  \<^verbatim>\<open>press_floor_button\<close> and \<^verbatim>\<open>add_random_stop\<close>, by
  \<^verbatim>\<open>process_next_request\<close> when the pending floors (a finite set) lie within
  the bounds, and by \<^verbatim>\<open>move_to_floor\<close> when its target lies within the bounds:
  the elevator then ends at the target.
\<close>

theorem current_floor_bounds:
  "(min_floors c \<le> max_floors c \<longrightarrow> current_in_bounds (new_Elevator c eid)) \<and>
   (current_in_bounds e \<longrightarrow> current_in_bounds (snd (press_floor_button e f))) \<and>
   (current_in_bounds e \<longrightarrow> current_in_bounds (snd (add_random_stop e rnd))) \<and>
   (current_in_bounds e \<and> requests_in_bounds e \<and> finite (requested_floors e) \<longrightarrow>
      current_in_bounds (snd (process_next_request depth e))) \<and>
   (floor_in_bounds e target \<longrightarrow>
      current_floor (move_to_floor e target) = target \<and>
      current_in_bounds (move_to_floor e target))"
proof (intro conjI impI)
  assume "min_floors c \<le> max_floors c"
  then show "current_in_bounds (new_Elevator c eid)"
    by (simp add: current_in_bounds_def floor_in_bounds_def new_Elevator_def)
next
  assume "current_in_bounds e"
  then show "current_in_bounds (snd (press_floor_button e f))"
    by (simp add: current_in_bounds_def floor_in_bounds_def press_floor_button_config
        press_floor_button_current)
next
  assume "current_in_bounds e"
  then show "current_in_bounds (snd (add_random_stop e rnd))"
    using add_random_stop_cases [of e rnd]
    by (auto simp: current_in_bounds_def floor_in_bounds_def)
next
  assume inv: "current_in_bounds e \<and> requests_in_bounds e \<and> finite (requested_floors e)"
  obtain r e1 where g: "get_next_floor depth e = (r, e1)"
    by (cases "get_next_floor depth e")
  note same = get_next_floor_fields [OF g]
  show "current_in_bounds (snd (process_next_request depth e))"
  proof (cases r)
    case (Inl err)
    with g inv same show ?thesis
      by (simp add: process_next_request_def current_in_bounds_def floor_in_bounds_def)
  next
    case (Inr nxt)
    show ?thesis
    proof (cases nxt)
      case None
      with Inr g inv same show ?thesis
        by (simp add: process_next_request_def current_in_bounds_def floor_in_bounds_def)
    next
      case (Some nf)
      with Inr g have g': "get_next_floor depth e = (Inr (Some nf), e1)" by simp
      from inv get_next_floor_Some [OF _ g'] have "nf \<in> requested_floors e" by simp
      with inv have "floor_in_bounds e nf" by (simp add: requests_in_bounds_def)
      with process_next_request_stop(1,2) [OF g'] show ?thesis
        by (simp add: current_in_bounds_def floor_in_bounds_def)
    qed
  qed
next
  show "current_floor (move_to_floor e target) = target"
    by (simp add: move_to_floor_fields)
next
  assume "floor_in_bounds e target"
  then show "current_in_bounds (move_to_floor e target)"
    by (simp add: current_in_bounds_def floor_in_bounds_def move_to_floor_fields)
qed

text \<open>
  The claim as stated fails for a target out of bounds: \<^verbatim>\<open>move_to_floor\<close>
  checks nothing, and from the lobby it moves the elevator to floor 100 of a
  building of 15 floors.
\<close>

theorem current_floor_bounds_counterexample:
  "current_in_bounds lobby \<and>
   current_floor (move_to_floor lobby 100) = 100 \<and>
   max_floors (config (move_to_floor lobby 100)) = 15 \<and>
   \<not> current_in_bounds (move_to_floor lobby 100)"
  by (simp add: current_in_bounds_def floor_in_bounds_def move_to_floor_fields lobby_fields
      default_config_def)

theorem current_floor_bounds_witness:
  "current_in_bounds lobby \<and>
   current_in_bounds (snd (press_floor_button lobby 4)) \<and>
   current_in_bounds (snd (add_random_stop lobby 4)) \<and>
   current_floor (snd (process_next_request 3 (snd (press_floor_button lobby 4)))) = 4 \<and>
   current_in_bounds (snd (process_next_request 3 (snd (press_floor_button lobby 4)))) \<and>
   current_floor (move_to_floor lobby 9) = 9 \<and>
   current_in_bounds (move_to_floor lobby 9)"
proof -
  let ?e1 = "snd (press_floor_button lobby 4)"
  have a: "current_in_bounds lobby"
    using current_floor_bounds [of default_config "''A''"]
    by (simp add: lobby_def default_config_def)
  have b: "current_in_bounds ?e1"
    using current_floor_bounds [of _ _ lobby 4] a by blast
  have c: "current_in_bounds (snd (add_random_stop lobby 4))"
    using current_floor_bounds [of _ _ lobby _ 4] a by blast
  have s1: "requested_floors ?e1 = {4}"
    by code_simp
  have d1: "requests_in_bounds ?e1"
    by code_simp
  have d2: "finite (requested_floors ?e1)"
    by (simp add: s1)
  have d: "current_in_bounds (snd (process_next_request 3 ?e1))"
    using current_floor_bounds [of _ _ ?e1 _ _ 3] b d1 d2 by blast
  have d': "current_floor (snd (process_next_request 3 ?e1)) = 4"
    by code_simp
  have e1: "floor_in_bounds lobby 9"
    by code_simp
  have e: "current_floor (move_to_floor lobby 9) = 9 \<and> current_in_bounds (move_to_floor lobby 9)"
    using current_floor_bounds [of _ _ lobby _ _ _ 9] e1 by blast
  show ?thesis using a b c d d' e by simp
qed

end
